theory Spec2Isabelle
  imports Main "HOL-Library.Word"
begin

section \<open>Wire records\<close>

text \<open>
  The generated package \<open>admin/proto\<close> declares \<open>FrameData\<close> and \<open>EventData\<close>. The
  fields of \<open>FrameData\<close> are the ones the server and the client read and write:
  \<open>AgentId\<close> (string), \<open>ImageData\<close> (bytes), \<open>Timestamp\<close> (int64) and \<open>IsPreview\<close>
  (bool). A \<open>*proto.FrameData\<close> is a \<open>FrameData option\<close>, \<open>None\<close> being \<open>nil\<close>; a frame
  is never mutated after it is built, so the pointer is modelled by its value.
\<close>

type_synonym byte = "8 word"

record FrameData =
  AgentId :: string
  ImageData :: "byte list"
  Timestamp :: "64 word"
  IsPreview :: bool

text \<open>
  Modelled from the spec: the declaration of \<open>proto.EventData\<close> is missing from the
  sources; an event names its producing agent and carries an opaque payload. The
  server never reads a field of an event.
\<close>

record EventData =
  EventAgentId :: string
  EventPayload :: "byte list"

definition FRAME_CHANNEL_BUFFER_SIZE :: nat where
  "FRAME_CHANNEL_BUFFER_SIZE = 4096"

definition OFFLINE_TIMESTAMP :: "64 word" where
  "OFFLINE_TIMESTAMP = 0"

section \<open>Buffered channels\<close>

text \<open>
  A Go channel made by \<open>make(chan T, n)\<close>: the queued values, oldest first, the
  capacity and the closed flag. Sending on a closed channel and closing a closed channel
  panic, also inside a \<open>select\<close>.
\<close>

datatype panic = SendOnClosedChannel | CloseOfClosedChannel | NilDereference

record 'a chan =
  chan_buf :: "'a list"
  chan_cap :: nat
  chan_closed :: bool

definition make_chan :: "nat \<Rightarrow> 'a chan" where
  "make_chan n = \<lparr>chan_buf = [], chan_cap = n, chan_closed = False\<rparr>"

text \<open>
  \<open>select { case c <- x: default: }\<close>: \<open>Inr (Some c')\<close> when the value was queued,
  \<open>Inr None\<close> when the \<open>default\<close> branch ran because the buffer is full.
\<close>

definition trySend :: "'a \<Rightarrow> 'a chan \<Rightarrow> panic + 'a chan option" where
  "trySend x c =
     (if chan_closed c then Inl SendOnClosedChannel
      else if length (chan_buf c) < chan_cap c
           then Inr (Some (c\<lparr>chan_buf := chan_buf c @ [x]\<rparr>))
           else Inr None)"

definition close_chan :: "'a chan \<Rightarrow> panic + 'a chan" where
  "close_chan c =
     (if chan_closed c then Inl CloseOfClosedChannel else Inr (c\<lparr>chan_closed := True\<rparr>))"

text \<open>
  One step of \<open>for x := range c\<close>: the oldest value and the rest of the channel, or the
  end of the loop on a closed and drained channel, or nothing to do yet.
\<close>

datatype 'a received = Received 'a "'a chan" | RangeDone | RangeBlocked

definition tryRecv :: "'a chan \<Rightarrow> 'a received" where
  "tryRecv c =
     (case chan_buf c of
        x # xs \<Rightarrow> Received x (c\<lparr>chan_buf := xs\<rparr>)
      | [] \<Rightarrow> if chan_closed c then RangeDone else RangeBlocked)"

section \<open>Subscribers and the service\<close>

text \<open>
  \<open>closeFn\<close> is a \<open>func()\<close>: the model keeps the identity of the closure and records
  each call of it in \<open>invoked\<close>. \<open>closeOnce\<close> is the done flag of the \<open>sync.Once\<close>.
\<close>

datatype callback = Callback nat

record adminSubscriber =
  adminId :: string
  frameChan :: "FrameData option chan"
  eventChan :: "EventData option chan"
  closeOnce :: bool
  closeFn :: "callback option"

type_synonym addr = nat

record AdminService =
  overviewSubs :: "string \<rightharpoonup> addr"
  detailSubs :: "string \<rightharpoonup> (string \<rightharpoonup> addr)"
  eventSubs :: "string \<rightharpoonup> (string \<rightharpoonup> addr)"

datatype log_entry =
    OverviewStart string | OverviewEnd string | OverviewSendError string
  | DetailStart string string | DetailEnd string string | DetailSendError string string
  | EventsStart string string | EventsEnd string string | EventsSendError string string
  | OverviewChanFull string | DetailChanFull string string | EventsChanFull string string
  | OfflineSent string | OfflineHandled string

text \<open>
  The service, the subscribers it and the stream handlers point to (a store from
  addresses to subscribers, with the next free address), the lines written by
  \<open>log.Printf\<close> and the closures called so far. The mutex is not modelled: each function
  below is one critical section or one call that runs atomically.
\<close>

record world =
  service :: AdminService
  heap :: "addr \<rightharpoonup> adminSubscriber"
  nextAddr :: addr
  logs :: "log_entry list"
  invoked :: "callback list"

definition newAdminSubscriber :: "string \<Rightarrow> world \<Rightarrow> addr \<times> world" where
  "newAdminSubscriber aid w =
     (nextAddr w,
      w\<lparr>heap := (heap w)(nextAddr w \<mapsto>
           \<lparr>adminId = aid,
            frameChan = make_chan FRAME_CHANNEL_BUFFER_SIZE,
            eventChan = make_chan FRAME_CHANNEL_BUFFER_SIZE,
            closeOnce = False,
            closeFn = None\<rparr>),
        nextAddr := Suc (nextAddr w)\<rparr>)"

definition newOfflineFrame :: "string \<Rightarrow> FrameData option" where
  "newOfflineFrame agentId =
     Some \<lparr>AgentId = agentId, ImageData = [], Timestamp = OFFLINE_TIMESTAMP, IsPreview = True\<rparr>"

definition isOfflineFrame :: "FrameData option \<Rightarrow> bool" where
  "isOfflineFrame frame =
     (case frame of
        None \<Rightarrow> False
      | Some f \<Rightarrow> Timestamp f = OFFLINE_TIMESTAMP \<and> length (ImageData f) = 0)"

text \<open>
  \<open>(a *adminSubscriber) close()\<close>: the body runs when the \<open>sync.Once\<close> has not fired
  yet. A panic is not recovered anywhere, so it ends the run.
\<close>

definition close :: "addr \<Rightarrow> world \<Rightarrow> panic + world" where
  "close a w =
     (case heap w a of
        None \<Rightarrow> Inl NilDereference
      | Some sub \<Rightarrow>
          if closeOnce sub then Inr w
          else (case close_chan (frameChan sub) of
                  Inl p \<Rightarrow> Inl p
                | Inr fc \<Rightarrow>
                    (case close_chan (eventChan sub) of
                       Inl p \<Rightarrow> Inl p
                     | Inr ec \<Rightarrow>
                         Inr (w\<lparr>heap := (heap w)(a \<mapsto>
                                   sub\<lparr>frameChan := fc, eventChan := ec, closeOnce := True\<rparr>),
                                 invoked := invoked w @
                                   (case closeFn sub of None \<Rightarrow> [] | Some f \<Rightarrow> [f])\<rparr>))))"

definition NewAdminService :: world where
  "NewAdminService =
     \<lparr>service = \<lparr>overviewSubs = Map.empty, detailSubs = Map.empty, eventSubs = Map.empty\<rparr>,
      heap = Map.empty, nextAddr = 0, logs = [], invoked = []\<rparr>"

section \<open>Subscribing and tearing down\<close>

text \<open>
  Each \<open>Subscribe*\<close> handler does three things: it registers a new subscriber under the
  lock and logs the start (\<open>_enter\<close>); it forwards what arrives on the subscriber's channel
  to its stream; on return the deferred function deletes the registry entry under the
  lock (\<open>_delete\<close>), then closes the subscriber and logs the end (\<open>_deferred\<close> is the
  whole deferred function). Other goroutines may run between the unlock and the close,
  so the two parts are also given separately.
\<close>

definition SubscribeOverview_enter :: "string \<Rightarrow> world \<Rightarrow> addr \<times> world" where
  "SubscribeOverview_enter aid w =
     (let (sub, w1) = newAdminSubscriber aid w;
          s = service w1
      in (sub, w1\<lparr>service := s\<lparr>overviewSubs := (overviewSubs s)(aid \<mapsto> sub)\<rparr>,
                  logs := logs w1 @ [OverviewStart aid]\<rparr>))"

definition SubscribeOverview_delete :: "string \<Rightarrow> world \<Rightarrow> world" where
  "SubscribeOverview_delete aid w =
     w\<lparr>service := (service w)\<lparr>overviewSubs := (overviewSubs (service w))(aid := None)\<rparr>\<rparr>"

definition SubscribeOverview_deferred :: "string \<Rightarrow> addr \<Rightarrow> world \<Rightarrow> panic + world" where
  "SubscribeOverview_deferred aid sub w =
     (case close sub (SubscribeOverview_delete aid w) of
        Inl p \<Rightarrow> Inl p
      | Inr w' \<Rightarrow> Inr (w'\<lparr>logs := logs w' @ [OverviewEnd aid]\<rparr>))"

text \<open>
  The two-level maps. \<open>s.detailSubs[adminId] == nil\<close> holds when the outer key is absent;
  \<open>delete\<close> on the absent (nil) inner map does nothing and its \<open>len\<close> is 0.
\<close>

definition insert2 ::
  "string \<Rightarrow> string \<Rightarrow> addr \<Rightarrow> (string \<rightharpoonup> (string \<rightharpoonup> addr)) \<Rightarrow> (string \<rightharpoonup> (string \<rightharpoonup> addr))" where
  "insert2 aid agentId sub m =
     (let m1 = (case m aid of None \<Rightarrow> m(aid \<mapsto> Map.empty) | Some inner \<Rightarrow> m)
      in case m1 aid of
           None \<Rightarrow> m1
         | Some inner \<Rightarrow> m1(aid \<mapsto> inner(agentId \<mapsto> sub)))"

definition delete2 ::
  "string \<Rightarrow> string \<Rightarrow> (string \<rightharpoonup> (string \<rightharpoonup> addr)) \<Rightarrow> (string \<rightharpoonup> (string \<rightharpoonup> addr))" where
  "delete2 aid agentId m =
     (let m1 = (case m aid of None \<Rightarrow> m | Some inner \<Rightarrow> m(aid \<mapsto> inner(agentId := None)))
      in if (case m1 aid of None \<Rightarrow> True | Some inner \<Rightarrow> dom inner = {})
         then m1(aid := None) else m1)"

definition SubscribeDetail_enter :: "string \<Rightarrow> string \<Rightarrow> world \<Rightarrow> addr \<times> world" where
  "SubscribeDetail_enter aid agentId w =
     (let (sub, w1) = newAdminSubscriber aid w;
          s = service w1
      in (sub, w1\<lparr>service := s\<lparr>detailSubs := insert2 aid agentId sub (detailSubs s)\<rparr>,
                  logs := logs w1 @ [DetailStart aid agentId]\<rparr>))"

definition SubscribeDetail_delete :: "string \<Rightarrow> string \<Rightarrow> world \<Rightarrow> world" where
  "SubscribeDetail_delete aid agentId w =
     w\<lparr>service := (service w)\<lparr>detailSubs := delete2 aid agentId (detailSubs (service w))\<rparr>\<rparr>"

definition SubscribeDetail_deferred ::
  "string \<Rightarrow> string \<Rightarrow> addr \<Rightarrow> world \<Rightarrow> panic + world" where
  "SubscribeDetail_deferred aid agentId sub w =
     (case close sub (SubscribeDetail_delete aid agentId w) of
        Inl p \<Rightarrow> Inl p
      | Inr w' \<Rightarrow> Inr (w'\<lparr>logs := logs w' @ [DetailEnd aid agentId]\<rparr>))"

definition SubscribeEvents_enter :: "string \<Rightarrow> string \<Rightarrow> world \<Rightarrow> addr \<times> world" where
  "SubscribeEvents_enter aid agentId w =
     (let (sub, w1) = newAdminSubscriber aid w;
          s = service w1
      in (sub, w1\<lparr>service := s\<lparr>eventSubs := insert2 aid agentId sub (eventSubs s)\<rparr>,
                  logs := logs w1 @ [EventsStart aid agentId]\<rparr>))"

definition SubscribeEvents_delete :: "string \<Rightarrow> string \<Rightarrow> world \<Rightarrow> world" where
  "SubscribeEvents_delete aid agentId w =
     w\<lparr>service := (service w)\<lparr>eventSubs := delete2 aid agentId (eventSubs (service w))\<rparr>\<rparr>"

definition SubscribeEvents_deferred ::
  "string \<Rightarrow> string \<Rightarrow> addr \<Rightarrow> world \<Rightarrow> panic + world" where
  "SubscribeEvents_deferred aid agentId sub w =
     (case close sub (SubscribeEvents_delete aid agentId w) of
        Inl p \<Rightarrow> Inl p
      | Inr w' \<Rightarrow> Inr (w'\<lparr>logs := logs w' @ [EventsEnd aid agentId]\<rparr>))"

text \<open>The three handlers taken together, by the key they subscribe under.\<close>

datatype regkey = OverviewKey string | DetailKey string string | EventsKey string string

fun Subscribe_enter :: "regkey \<Rightarrow> world \<Rightarrow> addr \<times> world" where
  "Subscribe_enter (OverviewKey aid) w = SubscribeOverview_enter aid w"
| "Subscribe_enter (DetailKey aid agentId) w = SubscribeDetail_enter aid agentId w"
| "Subscribe_enter (EventsKey aid agentId) w = SubscribeEvents_enter aid agentId w"

fun Subscribe_delete :: "regkey \<Rightarrow> world \<Rightarrow> world" where
  "Subscribe_delete (OverviewKey aid) w = SubscribeOverview_delete aid w"
| "Subscribe_delete (DetailKey aid agentId) w = SubscribeDetail_delete aid agentId w"
| "Subscribe_delete (EventsKey aid agentId) w = SubscribeEvents_delete aid agentId w"

fun Subscribe_deferred :: "regkey \<Rightarrow> addr \<Rightarrow> world \<Rightarrow> panic + world" where
  "Subscribe_deferred (OverviewKey aid) sub w = SubscribeOverview_deferred aid sub w"
| "Subscribe_deferred (DetailKey aid agentId) sub w = SubscribeDetail_deferred aid agentId sub w"
| "Subscribe_deferred (EventsKey aid agentId) sub w = SubscribeEvents_deferred aid agentId sub w"

section \<open>Broadcasting\<close>

text \<open>
  \<open>for _, sub := range m\<close> visits every key of the map once, in an order Go does not
  specify: the order is the list \<open>ks\<close>, an argument of each broadcast. A panic ends
  the loop.
\<close>

fun forEach :: "('k \<Rightarrow> world \<Rightarrow> panic + world) \<Rightarrow> 'k list \<Rightarrow> world \<Rightarrow> panic + world" where
  "forEach body [] w = Inr w"
| "forEach body (k # ks) w =
     (case body k w of Inl p \<Rightarrow> Inl p | Inr w' \<Rightarrow> forEach body ks w')"

definition map_order :: "('k \<rightharpoonup> 'v) \<Rightarrow> 'k list \<Rightarrow> bool" where
  "map_order m ks \<longleftrightarrow> distinct ks \<and> set ks = dom m"

text \<open>The \<open>select\<close> statements on the frame channel and on the event channel.\<close>

definition selectFrame ::
  "addr \<Rightarrow> FrameData option \<Rightarrow> (adminSubscriber \<Rightarrow> log_entry) \<Rightarrow> world \<Rightarrow> panic + world" where
  "selectFrame a frame full w =
     (case heap w a of
        None \<Rightarrow> Inl NilDereference
      | Some sub \<Rightarrow>
          (case trySend frame (frameChan sub) of
             Inl p \<Rightarrow> Inl p
           | Inr (Some c) \<Rightarrow> Inr (w\<lparr>heap := (heap w)(a \<mapsto> sub\<lparr>frameChan := c\<rparr>)\<rparr>)
           | Inr None \<Rightarrow> Inr (w\<lparr>logs := logs w @ [full sub]\<rparr>)))"

definition selectEvent ::
  "addr \<Rightarrow> EventData option \<Rightarrow> (adminSubscriber \<Rightarrow> log_entry) \<Rightarrow> world \<Rightarrow> panic + world" where
  "selectEvent a event full w =
     (case heap w a of
        None \<Rightarrow> Inl NilDereference
      | Some sub \<Rightarrow>
          (case trySend event (eventChan sub) of
             Inl p \<Rightarrow> Inl p
           | Inr (Some c) \<Rightarrow> Inr (w\<lparr>heap := (heap w)(a \<mapsto> sub\<lparr>eventChan := c\<rparr>)\<rparr>)
           | Inr None \<Rightarrow> Inr (w\<lparr>logs := logs w @ [full sub]\<rparr>)))"

definition broadcastOverview :: "string list \<Rightarrow> FrameData option \<Rightarrow> world \<Rightarrow> panic + world" where
  "broadcastOverview ks frame w =
     forEach (\<lambda>k w.
        case overviewSubs (service w) k of
          None \<Rightarrow> Inr w
        | Some sub \<Rightarrow> selectFrame sub frame (\<lambda>s. OverviewChanFull (adminId s)) w) ks w"

definition broadcastDetail ::
  "string list \<Rightarrow> string \<Rightarrow> FrameData option \<Rightarrow> world \<Rightarrow> panic + world" where
  "broadcastDetail ks agentId frame w =
     forEach (\<lambda>k w.
        case detailSubs (service w) k of
          None \<Rightarrow> Inr w
        | Some sub \<Rightarrow>
            (case sub agentId of
               None \<Rightarrow> Inr w
             | Some s \<Rightarrow> selectFrame s frame (\<lambda>s. DetailChanFull (adminId s) agentId) w)) ks w"

definition broadcastEvents ::
  "string list \<Rightarrow> string \<Rightarrow> EventData option \<Rightarrow> world \<Rightarrow> panic + world" where
  "broadcastEvents ks agentId event w =
     forEach (\<lambda>k w.
        case eventSubs (service w) k of
          None \<Rightarrow> Inr w
        | Some sub \<Rightarrow>
            (case sub agentId of
               None \<Rightarrow> Inr w
             | Some s \<Rightarrow> selectEvent s event (\<lambda>s. EventsChanFull (adminId s) agentId) w)) ks w"

definition PublishAgentOffline ::
  "string list \<Rightarrow> string list \<Rightarrow> string \<Rightarrow> world \<Rightarrow> panic + world" where
  "PublishAgentOffline ks ks' agentId w =
     (let offlineFrame = newOfflineFrame agentId in
      case broadcastOverview ks offlineFrame w of
        Inl p \<Rightarrow> Inl p
      | Inr w1 \<Rightarrow>
          (case broadcastDetail ks' agentId offlineFrame w1 of
             Inl p \<Rightarrow> Inl p
           | Inr w2 \<Rightarrow> Inr (w2\<lparr>logs := logs w2 @ [OfflineSent agentId]\<rparr>)))"

definition HandleIncomingFrame ::
  "string list \<Rightarrow> string list \<Rightarrow> FrameData option \<Rightarrow> world \<Rightarrow> panic + world" where
  "HandleIncomingFrame ks ks' frame w =
     (case frame of
        None \<Rightarrow> Inr w
      | Some f \<Rightarrow>
          (case broadcastOverview ks frame w of
             Inl p \<Rightarrow> Inl p
           | Inr w1 \<Rightarrow>
               (case broadcastDetail ks' (AgentId f) frame w1 of
                  Inl p \<Rightarrow> Inl p
                | Inr w2 \<Rightarrow>
                    Inr (if isOfflineFrame frame
                         then w2\<lparr>logs := logs w2 @ [OfflineHandled (AgentId f)]\<rparr>
                         else w2))))"

section \<open>Well-formed states\<close>

fun registered :: "AdminService \<Rightarrow> regkey \<Rightarrow> addr option" where
  "registered s (OverviewKey k) = overviewSubs s k"
| "registered s (DetailKey k g) = (case detailSubs s k of None \<Rightarrow> None | Some m \<Rightarrow> m g)"
| "registered s (EventsKey k g) = (case eventSubs s k of None \<Rightarrow> None | Some m \<Rightarrow> m g)"

text \<open>
  What every state the service can be in satisfies: a registered subscriber exists and
  has not been closed; no subscriber is registered under two keys; the channels of a
  subscriber are closed exactly when its \<open>Once\<close> has fired, and hold no more than their
  capacity; addresses below \<open>nextAddr\<close> only; no inner map is empty.
\<close>

definition registry_inv :: "world \<Rightarrow> bool" where
  "registry_inv w \<longleftrightarrow>
     (\<forall>key a. registered (service w) key = Some a \<longrightarrow>
        (\<exists>sub. heap w a = Some sub \<and> \<not> closeOnce sub)) \<and>
     (\<forall>key key' a. registered (service w) key = Some a \<and> registered (service w) key' = Some a
        \<longrightarrow> key = key') \<and>
     (\<forall>a sub. heap w a = Some sub \<longrightarrow>
        a < nextAddr w \<and>
        chan_closed (frameChan sub) = closeOnce sub \<and>
        chan_closed (eventChan sub) = closeOnce sub \<and>
        length (chan_buf (frameChan sub)) \<le> chan_cap (frameChan sub) \<and>
        length (chan_buf (eventChan sub)) \<le> chan_cap (eventChan sub)) \<and>
     (\<forall>k m. detailSubs (service w) k = Some m \<longrightarrow> dom m \<noteq> {}) \<and>
     (\<forall>k m. eventSubs (service w) k = Some m \<longrightarrow> dom m \<noteq> {})"

section \<open>What a broadcast does to one subscriber\<close>

text \<open>
  The effect of one \<open>select\<close> on a channel that is open: the value is queued when there
  is room, and the channel is left as it is otherwise; \<open>dropLog\<close> is the line logged by
  the \<open>default\<close> branch. \<open>targets s keyf\<close> are the subscribers registered under the keys
  \<open>keyf k\<close>.
\<close>

definition offer :: "'a \<Rightarrow> 'a chan \<Rightarrow> 'a chan" where
  "offer x c =
     (if length (chan_buf c) < chan_cap c then c\<lparr>chan_buf := chan_buf c @ [x]\<rparr> else c)"

definition offerFrame :: "FrameData option \<Rightarrow> adminSubscriber \<Rightarrow> adminSubscriber" where
  "offerFrame frame sub = sub\<lparr>frameChan := offer frame (frameChan sub)\<rparr>"

definition offerEvent :: "EventData option \<Rightarrow> adminSubscriber \<Rightarrow> adminSubscriber" where
  "offerEvent event sub = sub\<lparr>eventChan := offer event (eventChan sub)\<rparr>"

definition dropLog :: "'a chan \<Rightarrow> log_entry \<Rightarrow> log_entry list" where
  "dropLog c e = (if length (chan_buf c) < chan_cap c then [] else [e])"

definition targets :: "AdminService \<Rightarrow> (string \<Rightarrow> regkey) \<Rightarrow> addr set" where
  "targets s keyf = {a. \<exists>k. registered s (keyf k) = Some a}"

definition live :: "adminSubscriber \<Rightarrow> bool" where
  "live sub \<longleftrightarrow>
     \<not> closeOnce sub \<and> \<not> chan_closed (frameChan sub) \<and> \<not> chan_closed (eventChan sub)"

text \<open>
  The state after a loop that has visited every subscriber registered under the keys
  \<open>keyf k\<close> once, applying \<open>upd\<close> to it and logging \<open>msg\<close> of it; the broadcasts are
  shown below to compute it.
\<close>

definition fanout ::
  "(string \<Rightarrow> regkey) \<Rightarrow> (adminSubscriber \<Rightarrow> adminSubscriber) \<Rightarrow>
   (adminSubscriber \<Rightarrow> log_entry list) \<Rightarrow> string list \<Rightarrow> world \<Rightarrow> world" where
  "fanout keyf upd msg ks w =
     w\<lparr>heap := (\<lambda>a. if a \<in> targets (service w) keyf
                    then map_option upd (heap w a) else heap w a),
       logs := logs w @ concat (map (\<lambda>k. case registered (service w) (keyf k) of None \<Rightarrow> []
                 | Some a \<Rightarrow> (case heap w a of None \<Rightarrow> [] | Some sub \<Rightarrow> msg sub)) ks)\<rparr>"

text \<open>The contents of a subscriber's queues, and whether a queue has room.\<close>

definition frames :: "world \<Rightarrow> addr \<Rightarrow> FrameData option list" where
  "frames w a = (case heap w a of None \<Rightarrow> [] | Some sub \<Rightarrow> chan_buf (frameChan sub))"

definition events :: "world \<Rightarrow> addr \<Rightarrow> EventData option list" where
  "events w a = (case heap w a of None \<Rightarrow> [] | Some sub \<Rightarrow> chan_buf (eventChan sub))"

definition frameRoom :: "world \<Rightarrow> addr \<Rightarrow> bool" where
  "frameRoom w a =
     (case heap w a of
        None \<Rightarrow> False
      | Some sub \<Rightarrow> length (chan_buf (frameChan sub)) < chan_cap (frameChan sub))"

definition eventRoom :: "world \<Rightarrow> addr \<Rightarrow> bool" where
  "eventRoom w a =
     (case heap w a of
        None \<Rightarrow> False
      | Some sub \<Rightarrow> length (chan_buf (eventChan sub)) < chan_cap (eventChan sub))"

text \<open>A subscriber with both queues emptied: what is left is everything but the queue contents.\<close>

definition unqueued :: "adminSubscriber \<Rightarrow> adminSubscriber" where
  "unqueued sub =
     sub\<lparr>frameChan := (frameChan sub)\<lparr>chan_buf := []\<rparr>,
         eventChan := (eventChan sub)\<lparr>chan_buf := []\<rparr>\<rparr>"

text \<open>
  Two states with the same registry, the same subscribers up to the contents of their
  queues, and the same closures called.
\<close>

definition same_but_queues :: "world \<Rightarrow> world \<Rightarrow> bool" where
  "same_but_queues w w' \<longleftrightarrow>
     service w' = service w \<and> nextAddr w' = nextAddr w \<and> invoked w' = invoked w \<and>
     (\<forall>a. map_option unqueued (heap w' a) = map_option unqueued (heap w a))"

text \<open>An update of a subscriber that leaves its flags alone and overfills no queue.\<close>

definition keeps :: "(adminSubscriber \<Rightarrow> adminSubscriber) \<Rightarrow> bool" where
  "keeps upd \<longleftrightarrow> (\<forall>sub.
      closeOnce (upd sub) = closeOnce sub \<and>
      chan_closed (frameChan (upd sub)) = chan_closed (frameChan sub) \<and>
      chan_closed (eventChan (upd sub)) = chan_closed (eventChan sub) \<and>
      (length (chan_buf (frameChan sub)) \<le> chan_cap (frameChan sub) \<longrightarrow>
         length (chan_buf (frameChan (upd sub))) \<le> chan_cap (frameChan (upd sub))) \<and>
      (length (chan_buf (eventChan sub)) \<le> chan_cap (eventChan sub) \<longrightarrow>
         length (chan_buf (eventChan (upd sub))) \<le> chan_cap (eventChan (upd sub))))"

text \<open>The subscriber built by \<open>newAdminSubscriber\<close>, and the observer id of a key.\<close>

definition fresh_sub :: "string \<Rightarrow> adminSubscriber" where
  "fresh_sub aid = \<lparr>adminId = aid,
            frameChan = make_chan FRAME_CHANNEL_BUFFER_SIZE,
            eventChan = make_chan FRAME_CHANNEL_BUFFER_SIZE,
            closeOnce = False,
            closeFn = None\<rparr>"

fun key_admin :: "regkey \<Rightarrow> string" where
  "key_admin (OverviewKey aid) = aid"
| "key_admin (DetailKey aid g) = aid"
| "key_admin (EventsKey aid g) = aid"

definition frameCap :: "world \<Rightarrow> addr \<Rightarrow> nat" where
  "frameCap w a = (case heap w a of None \<Rightarrow> 0 | Some sub \<Rightarrow> chan_cap (frameChan sub))"

definition eventCap :: "world \<Rightarrow> addr \<Rightarrow> nat" where
  "eventCap w a = (case heap w a of None \<Rightarrow> 0 | Some sub \<Rightarrow> chan_cap (eventChan sub))"

text \<open>The state after the two loops of a frame publish, and after the loop of an event publish.\<close>

definition framePublished ::
  "string list \<Rightarrow> string list \<Rightarrow> string \<Rightarrow> FrameData option \<Rightarrow> world \<Rightarrow> world" where
  "framePublished ks ks' g frame w =
     fanout (\<lambda>k. DetailKey k g) (offerFrame frame)
       (\<lambda>sub. dropLog (frameChan sub) (DetailChanFull (adminId sub) g)) ks'
       (fanout OverviewKey (offerFrame frame)
          (\<lambda>sub. dropLog (frameChan sub) (OverviewChanFull (adminId sub))) ks w)"

definition eventPublished ::
  "string list \<Rightarrow> string \<Rightarrow> EventData option \<Rightarrow> world \<Rightarrow> world" where
  "eventPublished ks g event w =
     fanout (\<lambda>k. EventsKey k g) (offerEvent event)
       (\<lambda>sub. dropLog (eventChan sub) (EventsChanFull (adminId sub) g)) ks w"

text \<open>
  A sequence of calls of \<open>HandleIncomingFrame\<close>, each with the orders in which its two
  loops visit the maps.
\<close>

fun publishAll :: "(string list \<times> string list \<times> FrameData) list \<Rightarrow> world \<Rightarrow> panic + world" where
  "publishAll [] w = Inr w"
| "publishAll ((ks, ks', f) # calls) w =
     (case HandleIncomingFrame ks ks' (Some f) w of
        Inl p \<Rightarrow> Inl p
      | Inr w' \<Rightarrow> publishAll calls w')"

text \<open>
  The keys a frame of agent \<open>g\<close> is broadcast to (every overview key and the detail keys
  of \<open>g\<close>), and the keys an event of agent \<open>g\<close> is broadcast to.
\<close>

fun frameKey :: "string \<Rightarrow> regkey \<Rightarrow> bool" where
  "frameKey g (OverviewKey k) = True"
| "frameKey g (DetailKey k g') = (g' = g)"
| "frameKey g (EventsKey k g') = False"

fun eventKey :: "string \<Rightarrow> regkey \<Rightarrow> bool" where
  "eventKey g (EventsKey k g') = (g' = g)"
| "eventKey g (OverviewKey k) = False"
| "eventKey g (DetailKey k g') = False"

text \<open>The frames of a sequence of calls that go to a key, in the order of the calls.\<close>

definition framesFor ::
  "regkey \<Rightarrow> (string list \<times> string list \<times> FrameData) list \<Rightarrow> FrameData option list" where
  "framesFor key calls =
     map (\<lambda>c. Some (snd (snd c))) (filter (\<lambda>c. frameKey (AgentId (snd (snd c))) key) calls)"

section \<open>States used as examples\<close>

text \<open>
  A service with four subscriptions, entered in this order: the overview of observer
  \<open>admin-1\<close> (subscriber 0), the detail of agent \<open>a1\<close> for \<open>admin-1\<close> (subscriber 1), the
  detail of agent \<open>a2\<close> for \<open>admin-2\<close> (subscriber 2) and the events of agent \<open>a1\<close> for
  \<open>admin-1\<close> (subscriber 3).
\<close>

definition demoWorld :: world where
  "demoWorld =
     snd (Subscribe_enter (EventsKey ''admin-1'' ''a1'')
       (snd (Subscribe_enter (DetailKey ''admin-2'' ''a2'')
         (snd (Subscribe_enter (DetailKey ''admin-1'' ''a1'')
           (snd (Subscribe_enter (OverviewKey ''admin-1'') NewAdminService)))))))"

definition demoFrame :: FrameData where
  "demoFrame = \<lparr>AgentId = ''a1'', ImageData = [1, 2, 3], Timestamp = 100, IsPreview = True\<rparr>"

definition demoEvent :: EventData where
  "demoEvent = \<lparr>EventAgentId = ''a1'', EventPayload = [7]\<rparr>"

text \<open>
  The example state after 4096 frames of a third agent \<open>a3\<close> were published and none was
  forwarded: the frame queue of the overview subscriber 0 is at capacity.
\<close>

definition bgFrame :: FrameData where
  "bgFrame = \<lparr>AgentId = ''a3'', ImageData = [9], Timestamp = 50, IsPreview = False\<rparr>"

definition fullWorld :: world where
  "fullWorld =
     (case publishAll
             (replicate FRAME_CHANNEL_BUFFER_SIZE ([''admin-1''], [''admin-2'', ''admin-1''], bgFrame))
             demoWorld of
        Inr w \<Rightarrow> w
      | Inl p \<Rightarrow> demoWorld)"

section \<open>The broadcast loops\<close>

lemma forEach_visit:
  assumes body: "\<And>k w. service w = sv \<Longrightarrow>
            body k w = (case tgt k of None \<Rightarrow> Inr w | Some a \<Rightarrow> visit a w)"
    and visit: "\<And>a w sub. heap w a = Some sub \<Longrightarrow> live sub \<Longrightarrow>
            visit a w = Inr (w\<lparr>heap := (heap w)(a \<mapsto> upd sub), logs := logs w @ msg sub\<rparr>)"
    and sv: "service w = sv"
    and dist: "distinct ks"
    and inj: "\<forall>k\<in>set ks. \<forall>k'\<in>set ks. tgt k = tgt k' \<longrightarrow> tgt k = None \<or> k = k'"
    and alloc: "\<forall>k\<in>set ks. \<forall>a. tgt k = Some a \<longrightarrow> (\<exists>sub. heap w a = Some sub \<and> live sub)"
  shows "forEach body ks w =
           Inr (w\<lparr>heap := (\<lambda>a. if (\<exists>k\<in>set ks. tgt k = Some a)
                               then map_option upd (heap w a) else heap w a),
                  logs := logs w @ concat (map (\<lambda>k. case tgt k of None \<Rightarrow> []
                             | Some a \<Rightarrow> (case heap w a of None \<Rightarrow> [] | Some sub \<Rightarrow> msg sub)) ks)\<rparr>)"
  using sv dist inj alloc
proof (induction ks arbitrary: w)
  case Nil
  then show ?case by simp
next
  case (Cons k ks)
  show ?case
  proof (cases "tgt k")
    case None
    have "forEach body (k # ks) w = forEach body ks w"
      using body [OF Cons.prems(1), of k] None by simp
    also have "\<dots> = Inr (w\<lparr>heap := (\<lambda>a. if (\<exists>k\<in>set ks. tgt k = Some a)
                               then map_option upd (heap w a) else heap w a),
                  logs := logs w @ concat (map (\<lambda>k. case tgt k of None \<Rightarrow> []
                             | Some a \<Rightarrow> (case heap w a of None \<Rightarrow> [] | Some sub \<Rightarrow> msg sub)) ks)\<rparr>)"
      using Cons.prems by (intro Cons.IH) auto
    finally show ?thesis using None by simp
  next
    case (Some a)
    from Cons.prems(4) Some obtain sub where sub: "heap w a = Some sub" "live sub"
      by auto
    define w1 where "w1 = w\<lparr>heap := (heap w)(a \<mapsto> upd sub), logs := logs w @ msg sub\<rparr>"
    have fresh: "\<forall>k'\<in>set ks. tgt k' \<noteq> Some a"
      using Cons.prems(2,3) Some by (metis distinct.simps(2) list.set_intros(1,2) option.distinct(1))
    have step: "body k w = Inr w1"
      using body [OF Cons.prems(1), of k] Some visit [OF sub] by (simp add: w1_def)
    have "forEach body ks w1 = Inr (w1\<lparr>heap := (\<lambda>a. if (\<exists>k\<in>set ks. tgt k = Some a)
                               then map_option upd (heap w1 a) else heap w1 a),
                  logs := logs w1 @ concat (map (\<lambda>k. case tgt k of None \<Rightarrow> []
                             | Some a \<Rightarrow> (case heap w1 a of None \<Rightarrow> [] | Some sub \<Rightarrow> msg sub)) ks)\<rparr>)"
    proof (rule Cons.IH)
      show "service w1 = sv" using Cons.prems(1) by (simp add: w1_def)
      show "distinct ks" using Cons.prems(2) by simp
      show "\<forall>k\<in>set ks. \<forall>k'\<in>set ks. tgt k = tgt k' \<longrightarrow> tgt k = None \<or> k = k'"
        using Cons.prems(3) by simp
      show "\<forall>k\<in>set ks. \<forall>a. tgt k = Some a \<longrightarrow> (\<exists>sub. heap w1 a = Some sub \<and> live sub)"
        using Cons.prems(4) fresh by (auto simp: w1_def)
    qed
    moreover have "(\<lambda>b. if (\<exists>k\<in>set ks. tgt k = Some b)
                               then map_option upd (heap w1 b) else heap w1 b)
        = (\<lambda>b. if (\<exists>k\<in>set (k # ks). tgt k = Some b)
                               then map_option upd (heap w b) else heap w b)"
      using fresh Some sub by (auto simp: w1_def fun_eq_iff)
    moreover have "map (\<lambda>k. case tgt k of None \<Rightarrow> []
                             | Some a \<Rightarrow> (case heap w1 a of None \<Rightarrow> [] | Some sub \<Rightarrow> msg sub)) ks
        = map (\<lambda>k. case tgt k of None \<Rightarrow> []
                             | Some a \<Rightarrow> (case heap w a of None \<Rightarrow> [] | Some sub \<Rightarrow> msg sub)) ks"
      using fresh by (intro map_cong) (auto simp: w1_def split: option.splits)
    ultimately show ?thesis
      using step Some sub by (simp add: w1_def)
  qed
qed

lemma inv_live:
  assumes "registry_inv w" "registered (service w) key = Some a"
  shows "\<exists>sub. heap w a = Some sub \<and> live sub"
  using assms unfolding registry_inv_def live_def by blast

lemma inv_inj:
  assumes "registry_inv w" "registered (service w) key = Some a"
    "registered (service w) key' = Some a"
  shows "key = key'"
  using assms unfolding registry_inv_def by blast

lemma forEach_registered:
  assumes body: "\<And>k w'. service w' = service w \<Longrightarrow>
            body k w' = (case registered (service w) (keyf k) of None \<Rightarrow> Inr w' | Some a \<Rightarrow> visit a w')"
    and visit: "\<And>a w sub. heap w a = Some sub \<Longrightarrow> live sub \<Longrightarrow>
            visit a w = Inr (w\<lparr>heap := (heap w)(a \<mapsto> upd sub), logs := logs w @ msg sub\<rparr>)"
    and inv: "registry_inv w"
    and keyf: "inj keyf"
    and dist: "distinct ks"
    and cover: "\<And>k a. registered (service w) (keyf k) = Some a \<Longrightarrow> k \<in> set ks"
  shows "forEach body ks w = Inr (fanout keyf upd msg ks w)"
proof -
  let ?tgt = "\<lambda>k. registered (service w) (keyf k)"
  have tg: "\<And>a. (\<exists>k\<in>set ks. ?tgt k = Some a) \<longleftrightarrow> a \<in> targets (service w) keyf"
    using cover by (auto simp: targets_def)
  have "forEach body ks w =
      Inr (w\<lparr>heap := (\<lambda>a. if (\<exists>k\<in>set ks. ?tgt k = Some a)
                               then map_option upd (heap w a) else heap w a),
             logs := logs w @ concat (map (\<lambda>k. case ?tgt k of None \<Rightarrow> []
                      | Some a \<Rightarrow> (case heap w a of None \<Rightarrow> [] | Some sub \<Rightarrow> msg sub)) ks)\<rparr>)"
  proof (rule forEach_visit [where sv = "service w" and visit = visit])
    show "\<forall>k\<in>set ks. \<forall>k'\<in>set ks. ?tgt k = ?tgt k' \<longrightarrow> ?tgt k = None \<or> k = k'"
    proof (intro ballI impI)
      fix k k' assume e: "?tgt k = ?tgt k'"
      show "?tgt k = None \<or> k = k'"
      proof (cases "?tgt k")
        case (Some a)
        then have "keyf k = keyf k'"
          using inv_inj [OF inv, of "keyf k" a "keyf k'"] e by simp
        then show ?thesis using keyf by (simp add: inj_eq)
      qed simp
    qed
    show "\<forall>k\<in>set ks. \<forall>a. ?tgt k = Some a \<longrightarrow> (\<exists>sub. heap w a = Some sub \<and> live sub)"
      using inv_live [OF inv] by auto
  qed (use body visit dist in simp_all)
  then show ?thesis by (simp add: tg fanout_def)
qed

lemma selectFrame_eq:
  assumes "heap w a = Some sub" "live sub"
  shows "selectFrame a frame full w =
     Inr (w\<lparr>heap := (heap w)(a \<mapsto> offerFrame frame sub),
            logs := logs w @ dropLog (frameChan sub) (full sub)\<rparr>)"
  using assms
  by (simp add: selectFrame_def trySend_def offerFrame_def offer_def dropLog_def map_upd_triv live_def)

lemma selectEvent_eq:
  assumes "heap w a = Some sub" "live sub"
  shows "selectEvent a event full w =
     Inr (w\<lparr>heap := (heap w)(a \<mapsto> offerEvent event sub),
            logs := logs w @ dropLog (eventChan sub) (full sub)\<rparr>)"
  using assms
  by (simp add: selectEvent_def trySend_def offerEvent_def offer_def dropLog_def map_upd_triv live_def)

lemma broadcastOverview_eq:
  assumes inv: "registry_inv w" and ord: "map_order (overviewSubs (service w)) ks"
  shows "broadcastOverview ks frame w =
     Inr (fanout OverviewKey (offerFrame frame)
            (\<lambda>sub. dropLog (frameChan sub) (OverviewChanFull (adminId sub))) ks w)"
  unfolding broadcastOverview_def
proof (rule forEach_registered [where
        visit = "\<lambda>a. selectFrame a frame (\<lambda>s. OverviewChanFull (adminId s))"])
  show "inj OverviewKey" by (simp add: inj_def)
  show "distinct ks" using ord by (simp add: map_order_def)
  show "\<And>k a. registered (service w) (OverviewKey k) = Some a \<Longrightarrow> k \<in> set ks"
    using ord by (auto simp: map_order_def)
qed (simp_all add: selectFrame_eq inv)

lemma broadcastDetail_eq:
  assumes inv: "registry_inv w" and ord: "map_order (detailSubs (service w)) ks"
  shows "broadcastDetail ks agentId frame w =
     Inr (fanout (\<lambda>k. DetailKey k agentId) (offerFrame frame)
            (\<lambda>sub. dropLog (frameChan sub) (DetailChanFull (adminId sub) agentId)) ks w)"
  unfolding broadcastDetail_def
proof (rule forEach_registered [where
        visit = "\<lambda>a. selectFrame a frame (\<lambda>s. DetailChanFull (adminId s) agentId)"])
  show "inj (\<lambda>k. DetailKey k agentId)" by (simp add: inj_def)
  show "distinct ks" using ord by (simp add: map_order_def)
  show "\<And>k a. registered (service w) (DetailKey k agentId) = Some a \<Longrightarrow> k \<in> set ks"
    using ord by (auto simp: map_order_def split: option.splits)
qed (simp_all add: selectFrame_eq inv split: option.splits)

lemma broadcastEvents_eq:
  assumes inv: "registry_inv w" and ord: "map_order (eventSubs (service w)) ks"
  shows "broadcastEvents ks agentId event w =
     Inr (fanout (\<lambda>k. EventsKey k agentId) (offerEvent event)
            (\<lambda>sub. dropLog (eventChan sub) (EventsChanFull (adminId sub) agentId)) ks w)"
  unfolding broadcastEvents_def
proof (rule forEach_registered [where
        visit = "\<lambda>a. selectEvent a event (\<lambda>s. EventsChanFull (adminId s) agentId)"])
  show "inj (\<lambda>k. EventsKey k agentId)" by (simp add: inj_def)
  show "distinct ks" using ord by (simp add: map_order_def)
  show "\<And>k a. registered (service w) (EventsKey k agentId) = Some a \<Longrightarrow> k \<in> set ks"
    using ord by (auto simp: map_order_def split: option.splits)
qed (simp_all add: selectEvent_eq inv split: option.splits)

lemma service_fanout [simp]: "service (fanout keyf upd msg ks w) = service w"
  and nextAddr_fanout [simp]: "nextAddr (fanout keyf upd msg ks w) = nextAddr w"
  and invoked_fanout [simp]: "invoked (fanout keyf upd msg ks w) = invoked w"
  by (simp_all add: fanout_def)

lemma heap_fanout:
  "heap (fanout keyf upd msg ks w) a =
     (if a \<in> targets (service w) keyf then map_option upd (heap w a) else heap w a)"
  by (simp add: fanout_def)

lemma frames_fanout_frame:
  "frames (fanout keyf (offerFrame f) msg ks w) a =
     (if a \<in> targets (service w) keyf \<and> frameRoom w a then frames w a @ [f] else frames w a)"
  by (auto simp: frames_def frameRoom_def heap_fanout offerFrame_def offer_def split: option.splits)

lemma events_fanout_frame:
  "events (fanout keyf (offerFrame f) msg ks w) a = events w a"
  by (auto simp: events_def heap_fanout offerFrame_def split: option.splits)

lemma events_fanout_event:
  "events (fanout keyf (offerEvent e) msg ks w) a =
     (if a \<in> targets (service w) keyf \<and> eventRoom w a then events w a @ [e] else events w a)"
  by (auto simp: events_def eventRoom_def heap_fanout offerEvent_def offer_def split: option.splits)

lemma frames_fanout_event:
  "frames (fanout keyf (offerEvent e) msg ks w) a = frames w a"
  by (auto simp: frames_def heap_fanout offerEvent_def split: option.splits)

lemma keeps_offerFrame: "keeps (offerFrame f)"
  by (simp add: keeps_def offerFrame_def offer_def)

lemma keeps_offerEvent: "keeps (offerEvent f)"
  by (simp add: keeps_def offerEvent_def offer_def)

lemma inv_heap:
  assumes "registry_inv w" "heap w a = Some sub"
  shows "a < nextAddr w" "chan_closed (frameChan sub) = closeOnce sub"
    "chan_closed (eventChan sub) = closeOnce sub"
    "length (chan_buf (frameChan sub)) \<le> chan_cap (frameChan sub)"
    "length (chan_buf (eventChan sub)) \<le> chan_cap (eventChan sub)"
  using assms unfolding registry_inv_def by blast+

lemma inv_inner:
  assumes "registry_inv w"
  shows "detailSubs (service w) k = Some m \<Longrightarrow> dom m \<noteq> {}"
    "eventSubs (service w) k = Some m \<Longrightarrow> dom m \<noteq> {}"
  using assms unfolding registry_inv_def by blast+

lemma registry_invI:
  assumes "\<And>key a. registered (service w) key = Some a \<Longrightarrow>
             \<exists>sub. heap w a = Some sub \<and> \<not> closeOnce sub"
    and "\<And>key key' a. registered (service w) key = Some a \<Longrightarrow>
             registered (service w) key' = Some a \<Longrightarrow> key = key'"
    and "\<And>a sub. heap w a = Some sub \<Longrightarrow>
        a < nextAddr w \<and>
        chan_closed (frameChan sub) = closeOnce sub \<and>
        chan_closed (eventChan sub) = closeOnce sub \<and>
        length (chan_buf (frameChan sub)) \<le> chan_cap (frameChan sub) \<and>
        length (chan_buf (eventChan sub)) \<le> chan_cap (eventChan sub)"
    and "\<And>k m. detailSubs (service w) k = Some m \<Longrightarrow> dom m \<noteq> {}"
    and "\<And>k m. eventSubs (service w) k = Some m \<Longrightarrow> dom m \<noteq> {}"
  shows "registry_inv w"
  unfolding registry_inv_def using assms by blast

lemma registry_inv_fanout:
  assumes inv: "registry_inv w" and k: "keeps upd"
  shows "registry_inv (fanout keyf upd msg ks w)"
proof (rule registry_invI)
  fix key a assume "registered (service (fanout keyf upd msg ks w)) key = Some a"
  then obtain sub where "heap w a = Some sub" "\<not> closeOnce sub"
    using inv_live [OF inv, of key a] by (auto simp: live_def)
  then show "\<exists>sub. heap (fanout keyf upd msg ks w) a = Some sub \<and> \<not> closeOnce sub"
    using k by (simp add: heap_fanout keeps_def)
next
  fix key key' a
  assume "registered (service (fanout keyf upd msg ks w)) key = Some a"
    "registered (service (fanout keyf upd msg ks w)) key' = Some a"
  then show "key = key'" using inv_inj [OF inv, of key a key'] by simp
next
  fix a sub assume "heap (fanout keyf upd msg ks w) a = Some sub"
  then consider "heap w a = Some sub" | s where "heap w a = Some s" "sub = upd s"
    by (auto simp: heap_fanout split: if_splits)
  then show "a < nextAddr (fanout keyf upd msg ks w) \<and>
        chan_closed (frameChan sub) = closeOnce sub \<and>
        chan_closed (eventChan sub) = closeOnce sub \<and>
        length (chan_buf (frameChan sub)) \<le> chan_cap (frameChan sub) \<and>
        length (chan_buf (eventChan sub)) \<le> chan_cap (eventChan sub)"
  proof cases
    case 1
    then show ?thesis using inv_heap [OF inv 1] by simp
  next
    case 2
    then show ?thesis using inv_heap [OF inv 2(1)] k by (simp add: keeps_def)
  qed
qed (use inv_inner [OF inv] in simp_all)

section \<open>What a broadcast leaves alone\<close>

lemma same_but_queues_refl: "same_but_queues w w"
  by (simp add: same_but_queues_def)

lemma same_but_queues_trans:
  "same_but_queues w w' \<Longrightarrow> same_but_queues w' w'' \<Longrightarrow> same_but_queues w w''"
  by (simp add: same_but_queues_def)

lemma same_but_queues_logs: "same_but_queues w (w\<lparr>logs := l\<rparr>)"
  by (simp add: same_but_queues_def)

lemma forEach_same:
  assumes "\<And>k w w'. body k w = Inr w' \<Longrightarrow> same_but_queues w w'"
    and "forEach body ks w = Inr w'"
  shows "same_but_queues w w'"
  using assms(2)
proof (induction ks arbitrary: w)
  case Nil
  then show ?case by (simp add: same_but_queues_refl)
next
  case (Cons k ks)
  then obtain w1 where 1: "body k w = Inr w1" and 2: "forEach body ks w1 = Inr w'"
    by (auto split: sum.splits)
  show ?case
    using same_but_queues_trans [OF assms(1) [OF 1] Cons.IH [OF 2]] .
qed

lemma selectFrame_same:
  "selectFrame a frame full w = Inr w' \<Longrightarrow> same_but_queues w w'"
  by (auto simp: selectFrame_def trySend_def same_but_queues_def unqueued_def
           split: option.splits if_splits)

lemma selectEvent_same:
  "selectEvent a event full w = Inr w' \<Longrightarrow> same_but_queues w w'"
  by (auto simp: selectEvent_def trySend_def same_but_queues_def unqueued_def
           split: option.splits if_splits)

lemma broadcastOverview_same:
  "broadcastOverview ks frame w = Inr w' \<Longrightarrow> same_but_queues w w'"
  unfolding broadcastOverview_def
  by (erule forEach_same [rotated])
     (auto split: option.splits dest: selectFrame_same simp: same_but_queues_refl)

lemma broadcastDetail_same:
  "broadcastDetail ks agentId frame w = Inr w' \<Longrightarrow> same_but_queues w w'"
  unfolding broadcastDetail_def
  by (erule forEach_same [rotated])
     (auto split: option.splits dest: selectFrame_same simp: same_but_queues_refl)

lemma broadcastEvents_same:
  "broadcastEvents ks agentId event w = Inr w' \<Longrightarrow> same_but_queues w w'"
  unfolding broadcastEvents_def
  by (erule forEach_same [rotated])
     (auto split: option.splits dest: selectEvent_same simp: same_but_queues_refl)

lemma PublishAgentOffline_same:
  assumes "PublishAgentOffline ks ks' agentId w = Inr w'"
  shows "same_but_queues w w'"
proof -
  from assms obtain w1 w2 where
    1: "broadcastOverview ks (newOfflineFrame agentId) w = Inr w1" and
    2: "broadcastDetail ks' agentId (newOfflineFrame agentId) w1 = Inr w2" and
    3: "w' = w2\<lparr>logs := logs w2 @ [OfflineSent agentId]\<rparr>"
    by (auto simp: PublishAgentOffline_def Let_def split: sum.splits)
  show ?thesis
    unfolding 3
    by (rule same_but_queues_trans [OF broadcastOverview_same [OF 1]
          same_but_queues_trans [OF broadcastDetail_same [OF 2] same_but_queues_logs]])
qed

lemma HandleIncomingFrame_same:
  assumes "HandleIncomingFrame ks ks' frame w = Inr w'"
  shows "same_but_queues w w'"
proof (cases frame)
  case None
  then show ?thesis using assms by (simp add: HandleIncomingFrame_def same_but_queues_refl)
next
  case (Some f)
  with assms obtain w1 w2 where
    1: "broadcastOverview ks frame w = Inr w1" and
    2: "broadcastDetail ks' (AgentId f) frame w1 = Inr w2" and
    3: "w' = w2 \<or> w' = w2\<lparr>logs := logs w2 @ [OfflineHandled (AgentId f)]\<rparr>"
    by (auto simp: HandleIncomingFrame_def split: sum.splits if_splits)
  have "same_but_queues w w2"
    by (rule same_but_queues_trans [OF broadcastOverview_same [OF 1] broadcastDetail_same [OF 2]])
  then show ?thesis
    using 3 same_but_queues_trans [OF _ same_but_queues_logs] by blast
qed

section \<open>The registry maps\<close>

lemma dom_del_empty:
  assumes "dom (i(g := None)) = {}" "g' \<noteq> g"
  shows "i g' = None"
proof -
  have "(i(g := None)) g' = None" using assms(1) by (metis domIff empty_iff)
  then show ?thesis using assms(2) by simp
qed

lemma registered_insert2:
  "(case insert2 aid g a m k of None \<Rightarrow> None | Some i \<Rightarrow> i g') =
     (if k = aid \<and> g' = g then Some a else (case m k of None \<Rightarrow> None | Some i \<Rightarrow> i g'))"
  by (auto simp: insert2_def Let_def split: option.splits)

lemma delete2_cases:
  "delete2 aid g m =
     (case m aid of
        None \<Rightarrow> m
      | Some i \<Rightarrow> if dom (i(g := None)) = {} then m(aid := None) else m(aid \<mapsto> i(g := None)))"
proof (cases "m aid")
  case None
  then have "m(aid := None) = m" by (simp add: fun_upd_idem)
  then show ?thesis using None by (simp add: delete2_def)
next
  case (Some i)
  then show ?thesis by (simp add: delete2_def del: dom_eq_empty_conv dom_fun_upd)
qed

lemma registered_delete2:
  "(case delete2 aid g m k of None \<Rightarrow> None | Some i \<Rightarrow> i g') =
     (if k = aid \<and> g' = g then None else (case m k of None \<Rightarrow> None | Some i \<Rightarrow> i g'))"
proof (cases "m aid")
  case None
  then show ?thesis by (simp add: delete2_cases)
next
  case (Some i)
  show ?thesis
  proof (cases "dom (i(g := None)) = {}")
    case True
    then have "\<And>g'. g' \<noteq> g \<Longrightarrow> i g' = None" by (rule dom_del_empty)
    then show ?thesis using Some True
      by (auto simp add: delete2_cases simp del: dom_eq_empty_conv dom_fun_upd)
  next
    case False
    then show ?thesis using Some
      by (simp add: delete2_cases del: dom_eq_empty_conv dom_fun_upd)
  qed
qed

lemma insert2_nonempty:
  assumes "\<And>k i. m k = Some i \<Longrightarrow> dom i \<noteq> {}" "insert2 aid g a m k = Some i"
  shows "dom i \<noteq> {}"
  using assms by (auto simp: insert2_def Let_def split: option.splits if_splits)

lemma delete2_nonempty:
  assumes "\<And>k i. m k = Some i \<Longrightarrow> dom i \<noteq> {}" "delete2 aid g m k = Some i"
  shows "dom i \<noteq> {}"
proof (cases "k = aid")
  case False
  then have "m k = Some i" using assms(2)
    by (auto simp add: delete2_cases simp del: dom_eq_empty_conv dom_fun_upd
             split: option.splits if_splits)
  then show ?thesis by (rule assms(1))
next
  case True
  then show ?thesis using assms
    by (auto simp add: delete2_cases simp del: dom_eq_empty_conv dom_fun_upd
             split: option.splits if_splits)
qed

lemma delete2_absent:
  assumes "\<And>k i. m k = Some i \<Longrightarrow> dom i \<noteq> {}"
    "(case m aid of None \<Rightarrow> None | Some i \<Rightarrow> i g) = None"
  shows "delete2 aid g m = m"
proof (cases "m aid")
  case None
  then show ?thesis by (simp add: delete2_cases)
next
  case (Some i)
  then have "i g = None" "dom i \<noteq> {}" using assms by auto
  then have "i(g := None) = i" by (simp add: fun_upd_idem)
  then show ?thesis using Some \<open>dom i \<noteq> {}\<close> by (simp add: delete2_cases map_upd_triv)
qed

lemma enter_fst: "fst (Subscribe_enter key w) = nextAddr w"
  by (cases key)
     (simp_all add: SubscribeOverview_enter_def SubscribeDetail_enter_def
        SubscribeEvents_enter_def newAdminSubscriber_def Let_def)

lemma enter_heap:
  "heap (snd (Subscribe_enter key w)) = (heap w)(nextAddr w \<mapsto> fresh_sub (key_admin key))"
  by (cases key)
     (simp_all add: SubscribeOverview_enter_def SubscribeDetail_enter_def
        SubscribeEvents_enter_def newAdminSubscriber_def fresh_sub_def Let_def)

lemma enter_nextAddr: "nextAddr (snd (Subscribe_enter key w)) = Suc (nextAddr w)"
  and enter_invoked: "invoked (snd (Subscribe_enter key w)) = invoked w"
  by (cases key;
      simp add: SubscribeOverview_enter_def SubscribeDetail_enter_def
        SubscribeEvents_enter_def newAdminSubscriber_def Let_def)+

lemma enter_registered:
  "registered (service (snd (Subscribe_enter key w))) key' =
     (if key' = key then Some (nextAddr w) else registered (service w) key')"
  by (cases key; cases key')
     (simp_all add: SubscribeOverview_enter_def SubscribeDetail_enter_def
        SubscribeEvents_enter_def newAdminSubscriber_def registered_insert2 Let_def)

lemma enter_detailSubs:
  "detailSubs (service (snd (Subscribe_enter key w))) =
     (case key of DetailKey aid g \<Rightarrow> insert2 aid g (nextAddr w) (detailSubs (service w))
      | _ \<Rightarrow> detailSubs (service w))"
  by (cases key)
     (simp_all add: SubscribeOverview_enter_def SubscribeDetail_enter_def
        SubscribeEvents_enter_def newAdminSubscriber_def Let_def)

lemma enter_eventSubs:
  "eventSubs (service (snd (Subscribe_enter key w))) =
     (case key of EventsKey aid g \<Rightarrow> insert2 aid g (nextAddr w) (eventSubs (service w))
      | _ \<Rightarrow> eventSubs (service w))"
  by (cases key)
     (simp_all add: SubscribeOverview_enter_def SubscribeDetail_enter_def
        SubscribeEvents_enter_def newAdminSubscriber_def Let_def)

lemma enter_inner:
  assumes d: "\<And>k i. detailSubs (service w) k = Some i \<Longrightarrow> dom i \<noteq> {}"
    and e: "\<And>k i. eventSubs (service w) k = Some i \<Longrightarrow> dom i \<noteq> {}"
  shows "detailSubs (service (snd (Subscribe_enter key w))) k = Some i \<Longrightarrow> dom i \<noteq> {}"
    and "eventSubs (service (snd (Subscribe_enter key w))) k = Some i \<Longrightarrow> dom i \<noteq> {}"
proof -
  assume a: "detailSubs (service (snd (Subscribe_enter key w))) k = Some i"
  show "dom i \<noteq> {}"
  proof (cases key)
    case (DetailKey aid g)
    then have "insert2 aid g (nextAddr w) (detailSubs (service w)) k = Some i"
      using a unfolding enter_detailSubs by simp
    then show ?thesis by (rule insert2_nonempty [rotated]) (rule d)
  next
    case (OverviewKey aid)
    then have "detailSubs (service w) k = Some i"
      using a unfolding enter_detailSubs by simp
    then show ?thesis by (rule d)
  next
    case (EventsKey aid g)
    then have "detailSubs (service w) k = Some i"
      using a unfolding enter_detailSubs by simp
    then show ?thesis by (rule d)
  qed
next
  assume a: "eventSubs (service (snd (Subscribe_enter key w))) k = Some i"
  show "dom i \<noteq> {}"
  proof (cases key)
    case (EventsKey aid g)
    then have "insert2 aid g (nextAddr w) (eventSubs (service w)) k = Some i"
      using a unfolding enter_eventSubs by simp
    then show ?thesis by (rule insert2_nonempty [rotated]) (rule e)
  next
    case (OverviewKey aid)
    then have "eventSubs (service w) k = Some i"
      using a unfolding enter_eventSubs by simp
    then show ?thesis by (rule e)
  next
    case (DetailKey aid g)
    then have "eventSubs (service w) k = Some i"
      using a unfolding enter_eventSubs by simp
    then show ?thesis by (rule e)
  qed
qed

lemma delete_heap: "heap (Subscribe_delete key w) = heap w"
  and delete_nextAddr: "nextAddr (Subscribe_delete key w) = nextAddr w"
  and delete_invoked: "invoked (Subscribe_delete key w) = invoked w"
  and delete_logs: "logs (Subscribe_delete key w) = logs w"
  by (cases key;
      simp add: SubscribeOverview_delete_def SubscribeDetail_delete_def
        SubscribeEvents_delete_def)+

lemma delete_registered:
  "registered (service (Subscribe_delete key w)) key' =
     (if key' = key then None else registered (service w) key')"
  by (cases key; cases key')
     (simp_all add: SubscribeOverview_delete_def SubscribeDetail_delete_def
        SubscribeEvents_delete_def registered_delete2)

lemma delete_detailSubs:
  "detailSubs (service (Subscribe_delete key w)) =
     (case key of DetailKey aid g \<Rightarrow> delete2 aid g (detailSubs (service w))
      | _ \<Rightarrow> detailSubs (service w))"
  by (cases key)
     (simp_all add: SubscribeOverview_delete_def SubscribeDetail_delete_def
        SubscribeEvents_delete_def)

lemma delete_eventSubs:
  "eventSubs (service (Subscribe_delete key w)) =
     (case key of EventsKey aid g \<Rightarrow> delete2 aid g (eventSubs (service w))
      | _ \<Rightarrow> eventSubs (service w))"
  by (cases key)
     (simp_all add: SubscribeOverview_delete_def SubscribeDetail_delete_def
        SubscribeEvents_delete_def)

lemma delete_inner:
  assumes d: "\<And>k i. detailSubs (service w) k = Some i \<Longrightarrow> dom i \<noteq> {}"
    and e: "\<And>k i. eventSubs (service w) k = Some i \<Longrightarrow> dom i \<noteq> {}"
  shows "detailSubs (service (Subscribe_delete key w)) k = Some i \<Longrightarrow> dom i \<noteq> {}"
    and "eventSubs (service (Subscribe_delete key w)) k = Some i \<Longrightarrow> dom i \<noteq> {}"
proof -
  assume a: "detailSubs (service (Subscribe_delete key w)) k = Some i"
  show "dom i \<noteq> {}"
  proof (cases key)
    case (DetailKey aid g)
    then have "delete2 aid g (detailSubs (service w)) k = Some i"
      using a unfolding delete_detailSubs by simp
    then show ?thesis by (rule delete2_nonempty [rotated]) (rule d)
  next
    case (OverviewKey aid)
    then have "detailSubs (service w) k = Some i"
      using a unfolding delete_detailSubs by simp
    then show ?thesis by (rule d)
  next
    case (EventsKey aid g)
    then have "detailSubs (service w) k = Some i"
      using a unfolding delete_detailSubs by simp
    then show ?thesis by (rule d)
  qed
next
  assume a: "eventSubs (service (Subscribe_delete key w)) k = Some i"
  show "dom i \<noteq> {}"
  proof (cases key)
    case (EventsKey aid g)
    then have "delete2 aid g (eventSubs (service w)) k = Some i"
      using a unfolding delete_eventSubs by simp
    then show ?thesis by (rule delete2_nonempty [rotated]) (rule e)
  next
    case (OverviewKey aid)
    then have "eventSubs (service w) k = Some i"
      using a unfolding delete_eventSubs by simp
    then show ?thesis by (rule e)
  next
    case (DetailKey aid g)
    then have "eventSubs (service w) k = Some i"
      using a unfolding delete_eventSubs by simp
    then show ?thesis by (rule e)
  qed
qed

section \<open>The invariant is kept\<close>

lemma registry_inv_init: "registry_inv NewAdminService"
proof -
  have "registered (service NewAdminService) key = None" for key
    by (cases key) (simp_all add: NewAdminService_def)
  then show ?thesis
    unfolding registry_inv_def by (simp add: NewAdminService_def)
qed

lemma registry_inv_enter:
  assumes inv: "registry_inv w"
  shows "registry_inv (snd (Subscribe_enter key w))"
proof (rule registry_invI)
  let ?w' = "snd (Subscribe_enter key w)"
  have unalloc: "heap w (nextAddr w) = None"
  proof (cases "heap w (nextAddr w)")
    case (Some sub)
    then show ?thesis using inv_heap(1) [OF inv Some] by simp
  qed simp
  have notreg: "registered (service w) k' \<noteq> Some (nextAddr w)" for k'
    using inv_live [OF inv, of k' "nextAddr w"] unalloc by auto
  { fix key' a assume r: "registered (service ?w') key' = Some a"
    show "\<exists>sub. heap ?w' a = Some sub \<and> \<not> closeOnce sub"
    proof (cases "key' = key")
      case True
      then have "a = nextAddr w" using r by (simp add: enter_registered)
      then show ?thesis by (simp add: enter_heap fresh_sub_def)
    next
      case False
      then have r': "registered (service w) key' = Some a" using r by (simp add: enter_registered)
      then obtain sub where "heap w a = Some sub" "\<not> closeOnce sub"
        using inv_live [OF inv r'] by (auto simp: live_def)
      moreover have "a \<noteq> nextAddr w" using r' notreg by auto
      ultimately show ?thesis by (simp add: enter_heap)
    qed }
  { fix key1 key2 a
    assume r1: "registered (service ?w') key1 = Some a"
      and r2: "registered (service ?w') key2 = Some a"
    show "key1 = key2"
    proof (cases "key1 = key \<or> key2 = key")
      case True
      then have "a = nextAddr w" using r1 r2 by (auto simp: enter_registered split: if_splits)
      then have "key1 = key" "key2 = key"
        using r1 r2 notreg by (auto simp: enter_registered split: if_splits)
      then show ?thesis by simp
    next
      case False
      then show ?thesis using r1 r2 inv_inj [OF inv, of key1 a key2]
        by (simp add: enter_registered)
    qed }
  { fix a sub assume "heap ?w' a = Some sub"
    then have h: "((heap w)(nextAddr w \<mapsto> fresh_sub (key_admin key))) a = Some sub"
      by (simp only: enter_heap)
    show "a < nextAddr ?w' \<and>
        chan_closed (frameChan sub) = closeOnce sub \<and>
        chan_closed (eventChan sub) = closeOnce sub \<and>
        length (chan_buf (frameChan sub)) \<le> chan_cap (frameChan sub) \<and>
        length (chan_buf (eventChan sub)) \<le> chan_cap (eventChan sub)"
    proof (cases "a = nextAddr w")
      case True
      then have "sub = fresh_sub (key_admin key)" using h by simp
      then show ?thesis using True by (simp add: enter_nextAddr fresh_sub_def make_chan_def)
    next
      case False
      then have 2: "heap w a = Some sub" using h by simp
      show ?thesis using inv_heap [OF inv 2] by (simp add: enter_nextAddr)
    qed }
  show "\<And>k m. detailSubs (service ?w') k = Some m \<Longrightarrow> dom m \<noteq> {}"
    by (rule enter_inner(1) [OF inv_inner(1) [OF inv] inv_inner(2) [OF inv]])
  show "\<And>k m. eventSubs (service ?w') k = Some m \<Longrightarrow> dom m \<noteq> {}"
    by (rule enter_inner(2) [OF inv_inner(1) [OF inv] inv_inner(2) [OF inv]])
qed

lemma registry_inv_delete:
  assumes inv: "registry_inv w"
  shows "registry_inv (Subscribe_delete key w)"
proof (rule registry_invI)
  { fix key' a assume "registered (service (Subscribe_delete key w)) key' = Some a"
    then show "\<exists>sub. heap (Subscribe_delete key w) a = Some sub \<and> \<not> closeOnce sub"
      using inv_live [OF inv, of key' a]
      by (cases "key' = key") (auto simp add: delete_registered delete_heap live_def) }
  { fix key1 key2 a
    assume "registered (service (Subscribe_delete key w)) key1 = Some a"
      "registered (service (Subscribe_delete key w)) key2 = Some a"
    then show "key1 = key2"
      using inv_inj [OF inv, of key1 a key2]
      by (simp add: delete_registered split: if_splits) }
  { fix a sub assume "heap (Subscribe_delete key w) a = Some sub"
    then show "a < nextAddr (Subscribe_delete key w) \<and>
        chan_closed (frameChan sub) = closeOnce sub \<and>
        chan_closed (eventChan sub) = closeOnce sub \<and>
        length (chan_buf (frameChan sub)) \<le> chan_cap (frameChan sub) \<and>
        length (chan_buf (eventChan sub)) \<le> chan_cap (eventChan sub)"
      using inv_heap [OF inv, of a sub] by (simp add: delete_heap delete_nextAddr) }
  show "\<And>k m. detailSubs (service (Subscribe_delete key w)) k = Some m \<Longrightarrow> dom m \<noteq> {}"
    by (rule delete_inner(1) [OF inv_inner(1) [OF inv] inv_inner(2) [OF inv]])
  show "\<And>k m. eventSubs (service (Subscribe_delete key w)) k = Some m \<Longrightarrow> dom m \<noteq> {}"
    by (rule delete_inner(2) [OF inv_inner(1) [OF inv] inv_inner(2) [OF inv]])
qed

section \<open>The example state\<close>

lemma demoWorld_inv: "registry_inv demoWorld"
  unfolding demoWorld_def
  by (intro registry_inv_enter registry_inv_init)

lemma demoWorld_overview: "overviewSubs (service demoWorld) = [''admin-1'' \<mapsto> 0]"
  by (simp add: demoWorld_def NewAdminService_def SubscribeOverview_enter_def
      SubscribeDetail_enter_def SubscribeEvents_enter_def newAdminSubscriber_def Let_def)

lemma demoWorld_detail:
  "detailSubs (service demoWorld) =
     [''admin-1'' \<mapsto> [''a1'' \<mapsto> 1], ''admin-2'' \<mapsto> [''a2'' \<mapsto> 2]]"
  by (simp add: demoWorld_def NewAdminService_def SubscribeOverview_enter_def
      SubscribeDetail_enter_def SubscribeEvents_enter_def newAdminSubscriber_def Let_def
      insert2_def numeral_2_eq_2 numeral_3_eq_3)

lemma demoWorld_events:
  "eventSubs (service demoWorld) = [''admin-1'' \<mapsto> [''a1'' \<mapsto> 3]]"
  by (simp add: demoWorld_def NewAdminService_def SubscribeOverview_enter_def
      SubscribeDetail_enter_def SubscribeEvents_enter_def newAdminSubscriber_def Let_def
      insert2_def numeral_2_eq_2 numeral_3_eq_3)

lemma demoWorld_heap:
  "heap demoWorld = [0 \<mapsto> fresh_sub ''admin-1'', 1 \<mapsto> fresh_sub ''admin-1'',
      2 \<mapsto> fresh_sub ''admin-2'', 3 \<mapsto> fresh_sub ''admin-1'']"
  by (simp add: demoWorld_def NewAdminService_def SubscribeOverview_enter_def
      SubscribeDetail_enter_def SubscribeEvents_enter_def newAdminSubscriber_def Let_def
      fresh_sub_def numeral_2_eq_2 numeral_3_eq_3)

lemma demoWorld_orders:
  "map_order (overviewSubs (service demoWorld)) [''admin-1'']"
  "map_order (detailSubs (service demoWorld)) [''admin-2'', ''admin-1'']"
  "map_order (eventSubs (service demoWorld)) [''admin-1'']"
  by (auto simp: map_order_def demoWorld_overview demoWorld_detail demoWorld_events)

section \<open>Publishing\<close>

lemma targets_overview: "a \<in> targets s OverviewKey \<longleftrightarrow> (\<exists>k. registered s (OverviewKey k) = Some a)"
  and targets_detail: "a \<in> targets s (\<lambda>k. DetailKey k g) \<longleftrightarrow> (\<exists>k. registered s (DetailKey k g) = Some a)"
  and targets_events: "a \<in> targets s (\<lambda>k. EventsKey k g) \<longleftrightarrow> (\<exists>k. registered s (EventsKey k g) = Some a)"
  by (simp_all add: targets_def)

lemma frame_targets:
  assumes inv: "registry_inv w" and r: "registered (service w) key = Some a"
  shows "a \<in> targets (service w) OverviewKey \<union> targets (service w) (\<lambda>k. DetailKey k g)
           \<longleftrightarrow> frameKey g key"
proof
  assume "a \<in> targets (service w) OverviewKey \<union> targets (service w) (\<lambda>k. DetailKey k g)"
  then obtain key' where "registered (service w) key' = Some a" "frameKey g key'"
    unfolding targets_def Un_iff mem_Collect_eq
    by (elim disjE exE) (fastforce simp del: registered.simps)+
  then show "frameKey g key" using inv_inj [OF inv r] by auto
next
  assume "frameKey g key"
  then show "a \<in> targets (service w) OverviewKey \<union> targets (service w) (\<lambda>k. DetailKey k g)"
    using r by (cases key) (auto simp: targets_def)
qed

lemma event_targets:
  assumes inv: "registry_inv w" and r: "registered (service w) key = Some a"
  shows "a \<in> targets (service w) (\<lambda>k. EventsKey k g) \<longleftrightarrow> eventKey g key"
proof
  assume "a \<in> targets (service w) (\<lambda>k. EventsKey k g)"
  then obtain key' where "registered (service w) key' = Some a" "eventKey g key'"
    unfolding targets_def mem_Collect_eq
    by (elim exE) (fastforce simp del: registered.simps)
  then show "eventKey g key" using inv_inj [OF inv r] by auto
next
  assume "eventKey g key"
  then show "a \<in> targets (service w) (\<lambda>k. EventsKey k g)"
    using r by (cases key) (auto simp: targets_def)
qed

lemma targets_registered:
  "a \<in> targets s keyf \<Longrightarrow> \<exists>key. registered s key = Some a"
  by (auto simp: targets_def)

lemma overview_detail_disjoint:
  assumes inv: "registry_inv w"
  shows "a \<in> targets (service w) OverviewKey \<Longrightarrow> a \<notin> targets (service w) (\<lambda>k. DetailKey k g)"
proof
  assume "a \<in> targets (service w) OverviewKey" "a \<in> targets (service w) (\<lambda>k. DetailKey k g)"
  then obtain k k' where "registered (service w) (OverviewKey k) = Some a"
    "registered (service w) (DetailKey k' g) = Some a"
    unfolding targets_def mem_Collect_eq by blast
  then have "OverviewKey k = DetailKey k' g" by (rule inv_inj [OF inv])
  then show False by simp
qed

lemma framePublished_eq:
  assumes inv: "registry_inv w"
    and o: "map_order (overviewSubs (service w)) ks"
    and d: "map_order (detailSubs (service w)) ks'"
  shows "\<exists>w1. broadcastOverview ks frame w = Inr w1 \<and>
           broadcastDetail ks' g frame w1 = Inr (framePublished ks ks' g frame w)"
proof -
  let ?w1 = "fanout OverviewKey (offerFrame frame)
          (\<lambda>sub. dropLog (frameChan sub) (OverviewChanFull (adminId sub))) ks w"
  have 1: "broadcastOverview ks frame w = Inr ?w1"
    by (rule broadcastOverview_eq [OF inv o])
  have inv1: "registry_inv ?w1"
    by (rule registry_inv_fanout [OF inv keeps_offerFrame])
  have d1: "map_order (detailSubs (service ?w1)) ks'" using d by simp
  have "broadcastDetail ks' g frame ?w1 = Inr (framePublished ks ks' g frame w)"
    unfolding framePublished_def by (rule broadcastDetail_eq [OF inv1 d1])
  with 1 show ?thesis by blast
qed

lemma framePublished_inv:
  "registry_inv w \<Longrightarrow> registry_inv (framePublished ks ks' g frame w)"
  unfolding framePublished_def
  by (intro registry_inv_fanout keeps_offerFrame)

lemma eventPublished_inv:
  "registry_inv w \<Longrightarrow> registry_inv (eventPublished ks g event w)"
  unfolding eventPublished_def
  by (intro registry_inv_fanout keeps_offerEvent)

lemma service_framePublished [simp]: "service (framePublished ks ks' g frame w) = service w"
  and service_eventPublished [simp]: "service (eventPublished ks g event w) = service w"
  by (simp_all add: framePublished_def eventPublished_def)

lemma frameRoom_other:
  "heap w' a = heap w a \<Longrightarrow> frameRoom w' a = frameRoom w a"
  by (simp add: frameRoom_def)

lemma frames_framePublished:
  assumes inv: "registry_inv w" and r: "registered (service w) key = Some a"
  shows "frames (framePublished ks ks' g frame w) a =
           (if frameKey g key \<and> frameRoom w a then frames w a @ [frame] else frames w a)"
proof -
  let ?w1 = "fanout OverviewKey (offerFrame frame)
          (\<lambda>sub. dropLog (frameChan sub) (OverviewChanFull (adminId sub))) ks w"
  note ft = frame_targets [OF inv r, of g]
  show ?thesis
  proof (cases "a \<in> targets (service w) OverviewKey")
    case True
    then have nd: "a \<notin> targets (service w) (\<lambda>k. DetailKey k g)"
      by (rule overview_detail_disjoint [OF inv])
    have "frames (framePublished ks ks' g frame w) a = frames ?w1 a"
      unfolding framePublished_def using nd by (simp add: frames_fanout_frame)
    also have "\<dots> = (if frameRoom w a then frames w a @ [frame] else frames w a)"
      using True by (simp add: frames_fanout_frame)
    finally show ?thesis using ft True by simp
  next
    case False
    then have h: "heap ?w1 a = heap w a" by (simp add: heap_fanout)
    have "frames (framePublished ks ks' g frame w) a =
        (if a \<in> targets (service w) (\<lambda>k. DetailKey k g) \<and> frameRoom ?w1 a
         then frames ?w1 a @ [frame] else frames ?w1 a)"
      unfolding framePublished_def by (simp add: frames_fanout_frame)
    also have "\<dots> = (if a \<in> targets (service w) (\<lambda>k. DetailKey k g) \<and> frameRoom w a
         then frames w a @ [frame] else frames w a)"
      using h by (simp add: frameRoom_def frames_def)
    finally show ?thesis using ft False by simp
  qed
qed

lemma heap_framePublished_other:
  assumes "a \<notin> targets (service w) OverviewKey" "a \<notin> targets (service w) (\<lambda>k. DetailKey k g)"
  shows "heap (framePublished ks ks' g frame w) a = heap w a"
  using assms by (simp add: framePublished_def heap_fanout)

lemma heap_framePublished_key:
  assumes inv: "registry_inv w" and r: "registered (service w) key = Some a"
    and nk: "\<not> frameKey g key"
  shows "heap (framePublished ks ks' g frame w) a = heap w a"
  using frame_targets [OF inv r, of g] nk by (intro heap_framePublished_other) auto

lemma heap_framePublished_unreg:
  assumes "\<And>key. registered (service w) key \<noteq> Some a"
  shows "heap (framePublished ks ks' g frame w) a = heap w a"
proof -
  have "a \<notin> targets (service w) keyf" for keyf
    using assms targets_registered by blast
  then show ?thesis by (intro heap_framePublished_other)
qed

lemma events_framePublished: "events (framePublished ks ks' g frame w) a = events w a"
  by (simp add: framePublished_def events_fanout_frame)

lemma events_eventPublished:
  assumes inv: "registry_inv w" and r: "registered (service w) key = Some a"
  shows "events (eventPublished ks g event w) a =
           (if eventKey g key \<and> eventRoom w a then events w a @ [event] else events w a)"
  using event_targets [OF inv r, of g]
  by (simp add: eventPublished_def events_fanout_event)

lemma heap_eventPublished_key:
  assumes inv: "registry_inv w" and r: "registered (service w) key = Some a"
    and nk: "\<not> eventKey g key"
  shows "heap (eventPublished ks g event w) a = heap w a"
  using event_targets [OF inv r, of g] nk by (simp add: eventPublished_def heap_fanout)

lemma heap_eventPublished_unreg:
  assumes "\<And>key. registered (service w) key \<noteq> Some a"
  shows "heap (eventPublished ks g event w) a = heap w a"
proof -
  have "a \<notin> targets (service w) keyf" for keyf
    using assms targets_registered by blast
  then show ?thesis by (simp add: eventPublished_def heap_fanout)
qed

lemma frames_eventPublished: "frames (eventPublished ks g event w) a = frames w a"
  by (simp add: eventPublished_def frames_fanout_event)

lemma HandleIncomingFrame_eq:
  assumes inv: "registry_inv w"
    and o: "map_order (overviewSubs (service w)) ks"
    and d: "map_order (detailSubs (service w)) ks'"
  shows "HandleIncomingFrame ks ks' (Some f) w =
     Inr (if isOfflineFrame (Some f)
          then (framePublished ks ks' (AgentId f) (Some f) w)
                 \<lparr>logs := logs (framePublished ks ks' (AgentId f) (Some f) w) @
                            [OfflineHandled (AgentId f)]\<rparr>
          else framePublished ks ks' (AgentId f) (Some f) w)"
  using framePublished_eq [OF inv o d, of "Some f" "AgentId f"]
  by (auto simp: HandleIncomingFrame_def)

lemma PublishAgentOffline_eq:
  assumes inv: "registry_inv w"
    and o: "map_order (overviewSubs (service w)) ks"
    and d: "map_order (detailSubs (service w)) ks'"
  shows "PublishAgentOffline ks ks' g w =
     Inr ((framePublished ks ks' g (newOfflineFrame g) w)
            \<lparr>logs := logs (framePublished ks ks' g (newOfflineFrame g) w) @ [OfflineSent g]\<rparr>)"
  using framePublished_eq [OF inv o d, of "newOfflineFrame g" g]
  by (auto simp: PublishAgentOffline_def Let_def)

lemma broadcastEvents_published:
  assumes inv: "registry_inv w" and e: "map_order (eventSubs (service w)) ks"
  shows "broadcastEvents ks g event w = Inr (eventPublished ks g event w)"
  unfolding eventPublished_def by (rule broadcastEvents_eq [OF inv e])

lemma frames_logs [simp]: "frames (w\<lparr>logs := l\<rparr>) a = frames w a"
  and events_logs [simp]: "events (w\<lparr>logs := l\<rparr>) a = events w a"
  and registry_inv_logs [simp]: "registry_inv (w\<lparr>logs := l\<rparr>) = registry_inv w"
  by (simp_all add: frames_def events_def registry_inv_def)

lemma frameCap_same: "same_but_queues w w' \<Longrightarrow> frameCap w' a = frameCap w a"
proof -
  assume "same_but_queues w w'"
  then have "map_option unqueued (heap w' a) = map_option unqueued (heap w a)"
    by (simp add: same_but_queues_def)
  then show ?thesis
    by (cases "heap w' a"; cases "heap w a")
       (auto simp: frameCap_def unqueued_def dest!: arg_cong [where f = "\<lambda>s. chan_cap (frameChan s)"])
qed

lemma eventCap_same: "same_but_queues w w' \<Longrightarrow> eventCap w' a = eventCap w a"
proof -
  assume "same_but_queues w w'"
  then have "map_option unqueued (heap w' a) = map_option unqueued (heap w a)"
    by (simp add: same_but_queues_def)
  then show ?thesis
    by (cases "heap w' a"; cases "heap w a")
       (auto simp: eventCap_def unqueued_def dest!: arg_cong [where f = "\<lambda>s. chan_cap (eventChan s)"])
qed

lemma frameRoom_iff:
  "frameRoom w a \<longleftrightarrow> length (frames w a) < frameCap w a"
  by (simp add: frameRoom_def frames_def frameCap_def split: option.splits)

lemma eventRoom_iff:
  "eventRoom w a \<longleftrightarrow> length (events w a) < eventCap w a"
  by (simp add: eventRoom_def events_def eventCap_def split: option.splits)

lemma HandleIncomingFrame_step:
  assumes inv: "registry_inv w"
    and o: "map_order (overviewSubs (service w)) ks"
    and d: "map_order (detailSubs (service w)) ks'"
  obtains w' where "HandleIncomingFrame ks ks' (Some f) w = Inr w'"
    and "registry_inv w'" and "same_but_queues w w'"
    and "\<And>key a. registered (service w) key = Some a \<Longrightarrow>
           frames w' a = (if frameKey (AgentId f) key \<and> frameRoom w a
                          then frames w a @ [Some f] else frames w a)"
    and "\<And>a. events w' a = events w a"
    and "\<And>a. (\<And>key. registered (service w) key \<noteq> Some a) \<Longrightarrow> heap w' a = heap w a"
proof -
  let ?p = "framePublished ks ks' (AgentId f) (Some f) w"
  let ?w' = "if isOfflineFrame (Some f)
          then ?p\<lparr>logs := logs ?p @ [OfflineHandled (AgentId f)]\<rparr> else ?p"
  have eq: "HandleIncomingFrame ks ks' (Some f) w = Inr ?w'"
    by (rule HandleIncomingFrame_eq [OF inv o d])
  show thesis
  proof (rule that [of ?w'])
    show "HandleIncomingFrame ks ks' (Some f) w = Inr ?w'" by (rule eq)
    show "registry_inv ?w'" using framePublished_inv [OF inv] by simp
    show "same_but_queues w ?w'" by (rule HandleIncomingFrame_same [OF eq])
    show "\<And>key a. registered (service w) key = Some a \<Longrightarrow>
           frames ?w' a = (if frameKey (AgentId f) key \<and> frameRoom w a
                          then frames w a @ [Some f] else frames w a)"
      using frames_framePublished [OF inv] by simp
    show "\<And>a. events ?w' a = events w a" by (simp add: events_framePublished)
    show "\<And>a. (\<And>key. registered (service w) key \<noteq> Some a) \<Longrightarrow> heap ?w' a = heap w a"
      using heap_framePublished_unreg [of w] by simp
  qed
qed

lemma PublishAgentOffline_step:
  assumes inv: "registry_inv w"
    and o: "map_order (overviewSubs (service w)) ks"
    and d: "map_order (detailSubs (service w)) ks'"
  obtains w' where "PublishAgentOffline ks ks' g w = Inr w'"
    and "registry_inv w'" and "same_but_queues w w'"
    and "\<And>key a. registered (service w) key = Some a \<Longrightarrow>
           frames w' a = (if frameKey g key \<and> frameRoom w a
                          then frames w a @ [newOfflineFrame g] else frames w a)"
    and "\<And>a. events w' a = events w a"
    and "\<And>a. (\<And>key. registered (service w) key \<noteq> Some a) \<Longrightarrow> heap w' a = heap w a"
    and "\<And>key a. registered (service w) key = Some a \<Longrightarrow> \<not> frameKey g key \<Longrightarrow>
           heap w' a = heap w a"
proof -
  let ?p = "framePublished ks ks' g (newOfflineFrame g) w"
  let ?w' = "?p\<lparr>logs := logs ?p @ [OfflineSent g]\<rparr>"
  have eq: "PublishAgentOffline ks ks' g w = Inr ?w'"
    by (rule PublishAgentOffline_eq [OF inv o d])
  show thesis
  proof (rule that [of ?w'])
    show "PublishAgentOffline ks ks' g w = Inr ?w'" by (rule eq)
    show "registry_inv ?w'" using framePublished_inv [OF inv] by simp
    show "same_but_queues w ?w'" by (rule PublishAgentOffline_same [OF eq])
    show "\<And>key a. registered (service w) key = Some a \<Longrightarrow>
           frames ?w' a = (if frameKey g key \<and> frameRoom w a
                          then frames w a @ [newOfflineFrame g] else frames w a)"
      using frames_framePublished [OF inv] by simp
    show "\<And>a. events ?w' a = events w a" by (simp add: events_framePublished)
    show "\<And>a. (\<And>key. registered (service w) key \<noteq> Some a) \<Longrightarrow> heap ?w' a = heap w a"
      using heap_framePublished_unreg [of w] by simp
    show "\<And>key a. registered (service w) key = Some a \<Longrightarrow> \<not> frameKey g key \<Longrightarrow>
           heap ?w' a = heap w a"
      using heap_framePublished_key [OF inv] by simp
  qed
qed

lemma broadcastEvents_step:
  assumes inv: "registry_inv w"
    and e: "map_order (eventSubs (service w)) ks"
  obtains w' where "broadcastEvents ks g event w = Inr w'"
    and "registry_inv w'" and "same_but_queues w w'"
    and "\<And>key a. registered (service w) key = Some a \<Longrightarrow>
           events w' a = (if eventKey g key \<and> eventRoom w a
                          then events w a @ [event] else events w a)"
    and "\<And>a. frames w' a = frames w a"
    and "\<And>a. (\<And>key. registered (service w) key \<noteq> Some a) \<Longrightarrow> heap w' a = heap w a"
proof -
  let ?w' = "eventPublished ks g event w"
  have eq: "broadcastEvents ks g event w = Inr ?w'"
    by (rule broadcastEvents_published [OF inv e])
  show thesis
  proof (rule that [of ?w'])
    show "broadcastEvents ks g event w = Inr ?w'" by (rule eq)
    show "registry_inv ?w'" by (rule eventPublished_inv [OF inv])
    show "same_but_queues w ?w'" by (rule broadcastEvents_same [OF eq])
    show "\<And>key a. registered (service w) key = Some a \<Longrightarrow>
           events ?w' a = (if eventKey g key \<and> eventRoom w a
                          then events w a @ [event] else events w a)"
      by (rule events_eventPublished [OF inv])
    show "\<And>a. frames ?w' a = frames w a" by (simp add: frames_eventPublished)
    show "\<And>a. (\<And>key. registered (service w) key \<noteq> Some a) \<Longrightarrow> heap ?w' a = heap w a"
      by (rule heap_eventPublished_unreg)
  qed
qed

lemma same_service: "same_but_queues w w' \<Longrightarrow> service w' = service w"
  by (simp add: same_but_queues_def)

lemma publishAll_frames:
  assumes inv: "registry_inv w"
    and ord: "\<forall>c\<in>set calls. map_order (overviewSubs (service w)) (fst c) \<and>
                map_order (detailSubs (service w)) (fst (snd c))"
  shows "\<exists>w'. publishAll calls w = Inr w' \<and> registry_inv w' \<and> same_but_queues w w' \<and>
           (\<forall>a. events w' a = events w a) \<and>
           (\<forall>key a. registered (service w) key = Some a \<longrightarrow>
              length (frames w a) + length (framesFor key calls) \<le> frameCap w a \<longrightarrow>
              frames w' a = frames w a @ framesFor key calls)"
  using inv ord
proof (induction calls arbitrary: w)
  case Nil
  then show ?case by (simp add: same_but_queues_refl framesFor_def)
next
  case (Cons c calls)
  obtain ks ks' f where c: "c = (ks, ks', f)" by (cases c) auto
  have o: "map_order (overviewSubs (service w)) ks" and d: "map_order (detailSubs (service w)) ks'"
    using Cons.prems(2) c by auto
  obtain w1 where 1: "HandleIncomingFrame ks ks' (Some f) w = Inr w1"
    and inv1: "registry_inv w1" and same1: "same_but_queues w w1"
    and fr1: "\<And>key a. registered (service w) key = Some a \<Longrightarrow>
           frames w1 a = (if frameKey (AgentId f) key \<and> frameRoom w a
                          then frames w a @ [Some f] else frames w a)"
    and ev1: "\<And>a. events w1 a = events w a"
    by (rule HandleIncomingFrame_step [OF Cons.prems(1) o d, of f]) blast
  have s1: "service w1 = service w" by (rule same_service [OF same1])
  have ord1: "\<forall>c\<in>set calls. map_order (overviewSubs (service w1)) (fst c) \<and>
                map_order (detailSubs (service w1)) (fst (snd c))"
    using Cons.prems(2) s1 by simp
  from Cons.IH [OF inv1 ord1] obtain w' where
    2: "publishAll calls w1 = Inr w'" and inv': "registry_inv w'"
    and same2: "same_but_queues w1 w'" and ev2: "\<forall>a. events w' a = events w1 a"
    and fr2: "\<And>key a. registered (service w1) key = Some a \<Longrightarrow>
              length (frames w1 a) + length (framesFor key calls) \<le> frameCap w1 a \<Longrightarrow>
              frames w' a = frames w1 a @ framesFor key calls"
    by blast
  have "publishAll (c # calls) w = Inr w'" using 1 2 c by simp
  moreover have "same_but_queues w w'" by (rule same_but_queues_trans [OF same1 same2])
  moreover have "\<forall>a. events w' a = events w a" using ev1 ev2 by simp
  moreover have "frames w' a = frames w a @ framesFor key (c # calls)"
    if r: "registered (service w) key = Some a"
      and len: "length (frames w a) + length (framesFor key (c # calls)) \<le> frameCap w a"
    for key a
  proof (cases "frameKey (AgentId f) key")
    case True
    then have ff: "framesFor key (c # calls) = Some f # framesFor key calls"
      by (simp add: framesFor_def c)
    then have "frameRoom w a" using len by (simp add: frameRoom_iff)
    then have f1: "frames w1 a = frames w a @ [Some f]" using fr1 [OF r] True by simp
    have "frames w' a = frames w1 a @ framesFor key calls"
      using r len ff f1 by (intro fr2) (simp_all add: s1 frameCap_same [OF same1])
    then show ?thesis using f1 ff by simp
  next
    case False
    then have ff: "framesFor key (c # calls) = framesFor key calls"
      by (simp add: framesFor_def c)
    have f1: "frames w1 a = frames w a" using fr1 [OF r] False by simp
    have "frames w' a = frames w1 a @ framesFor key calls"
      using r len ff f1 by (intro fr2) (simp_all add: s1 frameCap_same [OF same1])
    then show ?thesis using f1 ff by simp
  qed
  ultimately show ?case using inv' by blast
qed

section \<open>The offline marker\<close>

text \<open>
  C6, as the code has it: a frame is recognised as the offline marker exactly when it is
  not nil, its timestamp is 0 and its payload is empty; the preview flag is not looked
  at. The frame built by \<open>newOfflineFrame\<close> is recognised for every agent id, and it has
  an empty payload, timestamp 0 and the preview flag set.
\<close>

theorem offline_marker_recognised:
  "(isOfflineFrame frame \<longleftrightarrow> (\<exists>f. frame = Some f \<and> ImageData f = [] \<and> Timestamp f = 0)) \<and>
   isOfflineFrame (newOfflineFrame agentId) \<and>
   newOfflineFrame agentId =
     Some \<lparr>AgentId = agentId, ImageData = [], Timestamp = 0, IsPreview = True\<rparr>"
  by (cases frame) (auto simp: isOfflineFrame_def newOfflineFrame_def OFFLINE_TIMESTAMP_def)

text \<open>
  C6 as stated fails: a frame with empty payload and timestamp 0 whose preview flag is
  false is recognised, although it does not have the shape of the marker.
\<close>

theorem offline_marker_ignores_preview:
  "isOfflineFrame (Some \<lparr>AgentId = ''a1'', ImageData = [], Timestamp = 0, IsPreview = False\<rparr>) \<and>
   \<not> IsPreview \<lparr>AgentId = ''a1'', ImageData = [], Timestamp = 0, IsPreview = False\<rparr>"
  by (simp add: isOfflineFrame_def OFFLINE_TIMESTAMP_def)

end
